theory Spec2Isabelle
  imports Main
begin

section \<open>The document: tree, element references, external collaborators\<close>

text \<open>
  The DOM is a finite tree of nodes. A node reference is the node's position in the tree:
  the list of child indices leading to it, innermost index first, so that the parent of
  \<open>i # p\<close> is \<open>p\<close> and the document node itself is \<open>[]\<close>. Two references are the
  same node exactly when they are equal (reference identity of the source).
\<close>

datatype DomNode =
  DomNode (dom_nodeType: nat) (dom_tagName: string) (dom_id: string)
    (dom_classList: "string list") (dom_attributes: "(string \<times> string) list")
    (dom_childNodes: "DomNode list")

type_synonym Element = "nat list"

definition ELEMENT_NODE :: nat where
  "ELEMENT_NODE = 1"

text \<open>
  What the code takes from outside: the document tree, \<open>document.body\<close>, the selector
  engine behind \<open>document.querySelectorAll\<close> (the matching nodes in document order;
  \<open>document.querySelector\<close> is its first element or null) and the imported identifier
  escaper \<open>cssesc(_, {isIdentifier: true})\<close>.
\<close>

record Env =
  documentNode :: DomNode
  body :: Element
  querySelectorAll :: "string \<Rightarrow> Element list"
  cssesc :: "string \<Rightarrow> string"

fun deref :: "Env \<Rightarrow> Element \<Rightarrow> DomNode option" where
  "deref env [] = Some (documentNode env)"
| "deref env (i # p) =
     (case deref env p of
        None \<Rightarrow> None
      | Some parent \<Rightarrow>
          if i < length (dom_childNodes parent) then Some (dom_childNodes parent ! i) else None)"

definition parentNode :: "Env \<Rightarrow> Element \<Rightarrow> Element option" where
  "parentNode env e = (case e of [] \<Rightarrow> None | i # p \<Rightarrow> Some p)"

definition parentElement :: "Env \<Rightarrow> Element \<Rightarrow> Element option" where
  "parentElement env e =
     (case parentNode env e of
        None \<Rightarrow> None
      | Some p \<Rightarrow>
          (case deref env p of
             None \<Rightarrow> None
           | Some n \<Rightarrow> if dom_nodeType n = ELEMENT_NODE then Some p else None))"

definition querySelector :: "Env \<Rightarrow> string \<Rightarrow> Element option" where
  "querySelector env s = (case querySelectorAll env s of [] \<Rightarrow> None | n # ns \<Rightarrow> Some n)"

text \<open>\<open>String.prototype.toLowerCase\<close> on the ASCII letters (a \<open>char\<close> is a byte).\<close>

definition toLowerCase_char :: "char \<Rightarrow> char" where
  "toLowerCase_char c =
     (case map_of (zip ''ABCDEFGHIJKLMNOPQRSTUVWXYZ'' ''abcdefghijklmnopqrstuvwxyz'') c of
        Some l \<Rightarrow> l
      | None \<Rightarrow> c)"

definition toLowerCase :: "string \<Rightarrow> string" where
  "toLowerCase s = map toLowerCase_char s"

text \<open>The decimal rendering of a number inside a template literal.\<close>

fun digits :: "nat \<Rightarrow> string" where
  "digits n =
     (if n < 10 then [''0123456789'' ! n] else digits (n div 10) @ [''0123456789'' ! (n mod 10)])"

declare digits.simps [simp del]

definition startsWith :: "string \<Rightarrow> string \<Rightarrow> bool" where
  "startsWith s p = (take (length p) s = p)"

section \<open>The candidate model\<close>

record Node =
  name :: string
  penalty :: nat
  level :: "nat option"

type_synonym Path = "Node list"

datatype Limit = All | Two | One

text \<open>
  The three numbers of the options are counts: the code only compares them with lengths.
  Penalties and levels are sums and counters that start at 0.
\<close>

record Options =
  root :: Element
  className :: "string \<Rightarrow> bool"
  dataAttribute :: "string \<Rightarrow> bool"
  tagName :: "string \<Rightarrow> bool"
  seedMinLength :: nat
  optimizedMinLength :: nat
  threshold :: nat

text \<open>\<open>Partial<Options>\<close>: every key may be absent.\<close>

record PartialOptions =
  p_root :: "Element option"
  p_className :: "(string \<Rightarrow> bool) option"
  p_dataAttribute :: "(string \<Rightarrow> bool) option"
  p_tagName :: "(string \<Rightarrow> bool) option"
  p_seedMinLength :: "nat option"
  p_optimizedMinLength :: "nat option"
  p_threshold :: "nat option"

definition defaults :: "Env \<Rightarrow> Options" where
  "defaults env =
     \<lparr>root = body env, className = (\<lambda>name. True), dataAttribute = (\<lambda>attribute. True),
      tagName = (\<lambda>name. True), seedMinLength = 1, optimizedMinLength = 2, threshold = 1000\<rparr>"

definition spread :: "Options \<Rightarrow> PartialOptions option \<Rightarrow> Options" where
  "spread d options =
     (case options of
        None \<Rightarrow> d
      | Some o' \<Rightarrow>
          \<lparr>root = (case p_root o' of None \<Rightarrow> root d | Some v \<Rightarrow> v),
           className = (case p_className o' of None \<Rightarrow> className d | Some v \<Rightarrow> v),
           dataAttribute = (case p_dataAttribute o' of None \<Rightarrow> dataAttribute d | Some v \<Rightarrow> v),
           tagName = (case p_tagName o' of None \<Rightarrow> tagName d | Some v \<Rightarrow> v),
           seedMinLength = (case p_seedMinLength o' of None \<Rightarrow> seedMinLength d | Some v \<Rightarrow> v),
           optimizedMinLength =
             (case p_optimizedMinLength o' of None \<Rightarrow> optimizedMinLength d | Some v \<Rightarrow> v),
           threshold = (case p_threshold o' of None \<Rightarrow> threshold d | Some v \<Rightarrow> v)\<rparr>)"

section \<open>Candidate generation\<close>

definition id_node :: "Env \<Rightarrow> DomNode \<Rightarrow> Node option" where
  "id_node env input =
     (if dom_id input \<noteq> ''''
      then Some \<lparr>name = ''#'' @ cssesc env (dom_id input), penalty = 0, level = None\<rparr>
      else None)"

definition classNames :: "Env \<Rightarrow> Options \<Rightarrow> DomNode \<Rightarrow> Node list" where
  "classNames env config input =
     (let names = filter (className config) (dom_classList input)
      in map (\<lambda>n. \<lparr>name = ''.'' @ cssesc env n, penalty = 1, level = None\<rparr>) names)"

definition dataAttributes :: "Options \<Rightarrow> DomNode \<Rightarrow> Node list" where
  "dataAttributes config input =
     (let attrs = filter (\<lambda>attribute. dataAttribute config (fst attribute)
                            \<and> startsWith (fst attribute) ''data-'')
                    (dom_attributes input)
      in map (\<lambda>attribute.
            \<lparr>name = ''['' @ fst attribute @ ''=\"'' @ snd attribute @ ''\"]'',
             penalty = 2, level = None\<rparr>) attrs)"

definition tagName_node :: "Options \<Rightarrow> DomNode \<Rightarrow> Node option" where
  "tagName_node config input =
     (let n = toLowerCase (dom_tagName input)
      in if tagName config n then Some \<lparr>name = n, penalty = 3, level = None\<rparr> else None)"

definition any :: Node where
  "any = \<lparr>name = ''*'', penalty = 4, level = None\<rparr>"

text \<open>\<open>maybe(...level)\<close>: the non-null entries, or null when there is none.\<close>

definition maybe :: "Node option list \<Rightarrow> Node list option" where
  "maybe lvl =
     (let list = map the (filter (\<lambda>v. v \<noteq> None) lvl)
      in if length list > 0 then Some list else None)"

text \<open>\<open>a || b\<close> on a value that is null or an array (an array is truthy).\<close>

definition or_else :: "'a option \<Rightarrow> 'a option \<Rightarrow> 'a option" where
  "or_else a b = (case a of Some v \<Rightarrow> Some v | None \<Rightarrow> b)"

text \<open>The first statement of the loop body of \<open>bottomUpSearch\<close>.\<close>

definition candidates :: "Env \<Rightarrow> Options \<Rightarrow> DomNode \<Rightarrow> Node list" where
  "candidates env config current =
     (case or_else (maybe [id_node env current])
            (or_else (maybe (map Some (classNames env config current)))
              (or_else (maybe (map Some (dataAttributes config current)))
                (maybe [tagName_node config current]))) of
        Some lvl \<Rightarrow> lvl
      | None \<Rightarrow> [any])"

text \<open>
  \<open>index\<close>: the loop walks the parent's children from \<open>firstChild\<close> along
  \<open>nextSibling\<close>, counting element nodes, and stops at the input (position \<open>k\<close>
  counted down to 0) or at the last child.
\<close>

fun index_loop :: "DomNode list \<Rightarrow> nat \<Rightarrow> nat \<Rightarrow> nat" where
  "index_loop [] k i = i"
| "index_loop (child # rest) k i =
     (let i' = (if dom_nodeType child = ELEMENT_NODE then i + 1 else i)
      in if k = 0 \<or> rest = [] then i' else index_loop rest (k - 1) i')"

definition index :: "Env \<Rightarrow> Element \<Rightarrow> nat option" where
  "index env input =
     (case input of
        [] \<Rightarrow> None
      | k # p \<Rightarrow>
          (case deref env p of
             None \<Rightarrow> None
           | Some parent \<Rightarrow>
               (case dom_childNodes parent of
                  [] \<Rightarrow> None
                | child # rest \<Rightarrow> Some (index_loop (child # rest) k 0))))"

definition nthChild :: "Node \<Rightarrow> nat \<Rightarrow> Node" where
  "nthChild node i =
     \<lparr>name = name node @ '':nth-child('' @ digits i @ '')'', penalty = penalty node + 1,
      level = None\<rparr>"

definition dispensableNth :: "Node \<Rightarrow> bool" where
  "dispensableNth node = (name node \<noteq> ''html'' \<and> \<not> startsWith (name node) ''#'')"

text \<open>
  The three branches on \<open>limit\<close> in the loop body; \<open>nth\<close> is truthy when it is a
  number other than 0. The level that comes in is never empty (\<open>candidates\<close> ends in
  \<open>[any()]\<close>), so under \<open>One\<close> the destructured \<open>node\<close> exists; for the empty
  list, which the code never passes, the function returns it.
\<close>

definition truthy :: "nat option \<Rightarrow> bool" where
  "truthy nth' = (case nth' of None \<Rightarrow> False | Some n \<Rightarrow> n \<noteq> 0)"

definition limit_level :: "Limit \<Rightarrow> nat option \<Rightarrow> Node list \<Rightarrow> Node list" where
  "limit_level limit nth' lvl =
     (case limit of
        All \<Rightarrow>
          if truthy nth'
          then lvl @ map (\<lambda>node. nthChild node (the nth')) (filter dispensableNth lvl)
          else lvl
      | Two \<Rightarrow>
          (let lvl1 = take 1 lvl
           in if truthy nth'
              then lvl1 @ map (\<lambda>node. nthChild node (the nth')) (filter dispensableNth lvl1)
              else lvl1)
      | One \<Rightarrow>
          (let lvl1 = take 1 lvl
           in case lvl1 of
                [] \<Rightarrow> lvl1
              | node # rest \<Rightarrow>
                  if truthy nth' \<and> dispensableNth node then [nthChild node (the nth')] else lvl1))"

definition set_level :: "nat \<Rightarrow> Node list \<Rightarrow> Node list" where
  "set_level i lvl = map (\<lambda>node. node\<lparr>level := Some i\<rparr>) lvl"

section \<open>Errors, events and computations\<close>

text \<open>
  The three \<open>throw\<close> statements of the source, and the \<open>TypeError\<close> of reading a
  property of \<open>undefined\<close> or \<open>null\<close>.
\<close>

datatype error = NonElement | NotFound | CantSelect string | TypeError

text \<open>
  What a run does besides returning: each call of \<open>document.querySelectorAll\<close> and of
  \<open>document.querySelector\<close> with its selector, and each entry into
  \<open>bottomUpSearch\<close> with its limit, in the order in which they happen.
\<close>

datatype event = QueryAll string | QueryFirst string | Search Limit

type_synonym 'a comp = "(error + 'a) \<times> event list"

definition ret :: "'a \<Rightarrow> 'a comp" where
  "ret x = (Inr x, [])"

definition throw :: "error \<Rightarrow> 'a comp" where
  "throw e = (Inl e, [])"

text \<open>Sequencing: an error ends the run, with the events so far.\<close>

definition bind :: "'a comp \<Rightarrow> ('a \<Rightarrow> 'b comp) \<Rightarrow> 'b comp" where
  "bind m f = (case m of (Inl e, t) \<Rightarrow> (Inl e, t) | (Inr a, t) \<Rightarrow> apsnd ((@) t) (f a))"

section \<open>Rendering, penalty, oracle\<close>

fun selector_loop :: "Node \<Rightarrow> string \<Rightarrow> Node list \<Rightarrow> string" where
  "selector_loop node query [] = query"
| "selector_loop node query (p # rest) =
     (let lv = (case level p of None \<Rightarrow> 0 | Some l \<Rightarrow> l)
      in if map_option int (level node) = Some (int lv - 1)
         then selector_loop p (name p @ '' > '' @ query) rest
         else selector_loop p (name p @ '' '' @ query) rest)"

definition selector :: "Path \<Rightarrow> error + string" where
  "selector path =
     (case path of [] \<Rightarrow> Inl TypeError | node # rest \<Rightarrow> Inr (selector_loop node (name node) rest))"

definition penalty_path :: "Path \<Rightarrow> nat" where
  "penalty_path path = foldl (\<lambda>acc i. acc + i) 0 (map penalty path)"

definition unique :: "Env \<Rightarrow> Path \<Rightarrow> bool comp" where
  "unique env path =
     (case selector path of
        Inl e \<Rightarrow> throw e
      | Inr s \<Rightarrow>
          (case length (querySelectorAll env s) of
             0 \<Rightarrow> (Inl (CantSelect s), [QueryAll s])
           | Suc 0 \<Rightarrow> (Inr True, [QueryAll s])
           | Suc (Suc n) \<Rightarrow> (Inr False, [QueryAll s])))"

definition same :: "Env \<Rightarrow> Path \<Rightarrow> Element \<Rightarrow> bool comp" where
  "same env path input =
     (case selector path of
        Inl e \<Rightarrow> throw e
      | Inr s \<Rightarrow> (Inr (querySelector env s = Some input), [QueryFirst s]))"

section \<open>Combinations and resolution of a stack\<close>

fun combinations :: "Node list list \<Rightarrow> Node list \<Rightarrow> Path list" where
  "combinations [] path = [path]"
| "combinations (lvl # rest) path = concat (map (\<lambda>node. combinations rest (path @ [node])) lvl)"

text \<open>\<open>Array.prototype.sort\<close> with the comparator \<open>penalty(a) - penalty(b)\<close> is stable.\<close>

definition sort_paths :: "Path list \<Rightarrow> Path list" where
  "sort_paths paths = sort_key penalty_path paths"

text \<open>The \<open>for\<close> loop of \<open>findUniquePath\<close>.\<close>

fun test_candidates :: "Env \<Rightarrow> Path list \<Rightarrow> Path option comp" where
  "test_candidates env [] = ret None"
| "test_candidates env (candidate # rest) =
     bind (unique env candidate)
       (\<lambda>u. if u then ret (Some candidate) else test_candidates env rest)"

text \<open>
  The optional \<open>fallback\<close> is a closure over an unchanging document; it is given by
  what calling it does: its events and its result.
\<close>

definition findUniquePath :: "Env \<Rightarrow> Options \<Rightarrow> Node list list \<Rightarrow> Path option comp option
    \<Rightarrow> Path option comp" where
  "findUniquePath env config stack fallback =
     (let paths = sort_paths (combinations stack [])
      in if length paths > threshold config
         then (case fallback of Some fb \<Rightarrow> fb | None \<Rightarrow> ret None)
         else test_candidates env paths)"

section \<open>The search\<close>

text \<open>
  The \<open>while\<close> loop of \<open>bottomUpSearch\<close> and the resolution after it. \<open>current\<close>
  is null (\<open>None\<close>) or a node; the loop is left with a path (\<open>break\<close>) or, with none,
  through its condition, and then the stack is resolved once more.
\<close>

function bottomUpSearch_loop :: "Env \<Rightarrow> Options \<Rightarrow> Limit \<Rightarrow> Path option comp option
    \<Rightarrow> Element option \<Rightarrow> Node list list \<Rightarrow> nat \<Rightarrow> Path option comp" where
  "bottomUpSearch_loop env config limit fallback current stack i =
     (case current of
        None \<Rightarrow> findUniquePath env config stack fallback
      | Some cur \<Rightarrow>
          (case deref env cur of
             None \<Rightarrow> findUniquePath env config stack fallback
           | Some el \<Rightarrow>
               if Some cur = parentElement env (root config)
               then findUniquePath env config stack fallback
               else
                 (let lvl = set_level i (limit_level limit (index env cur) (candidates env config el));
                      stack' = stack @ [lvl]
                  in if length stack' \<ge> seedMinLength config
                     then
                       (case findUniquePath env config stack' fallback of
                          (Inl e, t) \<Rightarrow> (Inl e, t)
                        | (Inr (Some path), t) \<Rightarrow> (Inr (Some path), t)
                        | (Inr None, t) \<Rightarrow>
                            apsnd ((@) t)
                              (bottomUpSearch_loop env config limit fallback
                                 (parentElement env cur) stack' (i + 1)))
                     else
                       bottomUpSearch_loop env config limit fallback
                         (parentElement env cur) stack' (i + 1))))"
  by pat_completeness auto
termination
  by (relation "measure (\<lambda>(env, config, limit, fallback, current, stack, i).
        case current of None \<Rightarrow> 0 | Some c \<Rightarrow> Suc (length c))")
    (auto simp: parentElement_def parentNode_def split: option.splits list.splits if_splits)

declare bottomUpSearch_loop.simps [simp del]

definition bottomUpSearch :: "Env \<Rightarrow> Options \<Rightarrow> Element \<Rightarrow> Limit \<Rightarrow> Path option comp option
    \<Rightarrow> Path option comp" where
  "bottomUpSearch env config input limit fallback =
     apsnd ((#) (Search limit)) (bottomUpSearch_loop env config limit fallback (Some input) [] 0)"

section \<open>The minimizer\<close>

text \<open>
  \<open>optimize\<close> is a generator that \<open>sort\<close> drains with \<open>Array.from\<close>: the value is
  the list of everything it yields, in order. \<open>optimize_loop\<close> is its \<open>for\<close> loop
  from index \<open>i\<close> on.
\<close>

function optimize :: "Env \<Rightarrow> Options \<Rightarrow> Path \<Rightarrow> Element \<Rightarrow> Path list comp"
  and optimize_loop :: "Env \<Rightarrow> Options \<Rightarrow> Path \<Rightarrow> Element \<Rightarrow> nat \<Rightarrow> Path list comp" where
  "optimize env config path input =
     (if length path > 2 \<and> length path > optimizedMinLength config
      then optimize_loop env config path input 1
      else ret [])"
| "optimize_loop env config path input i =
     (if i < length path - 1
      then
        (let newPath = take i path @ drop (i + 1) path
         in case unique env newPath of
              (Inl e, t1) \<Rightarrow> (Inl e, t1)
            | (Inr False, t1) \<Rightarrow> apsnd ((@) t1) (optimize_loop env config path input (i + 1))
            | (Inr True, t1) \<Rightarrow>
                (case same env newPath input of
                   (Inl e, t2) \<Rightarrow> (Inl e, t1 @ t2)
                 | (Inr False, t2) \<Rightarrow>
                     apsnd ((@) (t1 @ t2)) (optimize_loop env config path input (i + 1))
                 | (Inr True, t2) \<Rightarrow>
                     (case optimize env config newPath input of
                        (Inl e, t3) \<Rightarrow> (Inl e, t1 @ t2 @ t3)
                      | (Inr inner, t3) \<Rightarrow>
                          (case optimize_loop env config path input (i + 1) of
                             (Inl e, t4) \<Rightarrow> (Inl e, t1 @ t2 @ t3 @ t4)
                           | (Inr later, t4) \<Rightarrow>
                               (Inr (newPath # inner @ later), t1 @ t2 @ t3 @ t4)))))
      else ret [])"
  by pat_completeness auto
termination
  by (relation "measures
        [\<lambda>x. case x of Inl (env, config, path, input) \<Rightarrow> length path
                      | Inr (env, config, path, input, i) \<Rightarrow> length path,
         \<lambda>x. case x of Inl a \<Rightarrow> 1 | Inr b \<Rightarrow> 0,
         \<lambda>x. case x of Inl a \<Rightarrow> 0
                      | Inr (env, config, path, input, i) \<Rightarrow> length path - i]")
    auto

declare optimize.simps [simp del]
declare optimize_loop.simps [simp del]

section \<open>The entry point\<close>

definition generate :: "Env \<Rightarrow> Element \<Rightarrow> PartialOptions option \<Rightarrow> string comp" where
  "generate env input options =
     (case deref env input of
        None \<Rightarrow> throw TypeError
      | Some el \<Rightarrow>
          if dom_nodeType el \<noteq> ELEMENT_NODE then throw NonElement
          else if ''html'' = toLowerCase (dom_tagName el) then ret (toLowerCase (dom_tagName el))
          else
            (let config = spread (defaults env) options
             in bind
                  (bottomUpSearch env config input All
                     (Some (bottomUpSearch env config input Two
                        (Some (bottomUpSearch env config input One None)))))
                  (\<lambda>found.
                     case found of
                       None \<Rightarrow> throw NotFound
                     | Some path \<Rightarrow>
                         bind (optimize env config path input)
                           (\<lambda>yielded.
                              let optimized = sort_paths yielded;
                                  path' = (if length optimized > 0 then optimized ! 0 else path)
                              in (case selector path' of Inl e \<Rightarrow> throw e | Inr s \<Rightarrow> ret s)))))"

section \<open>Reading the events of a run\<close>

fun is_query :: "event \<Rightarrow> bool" where
  "is_query (QueryAll s) = True"
| "is_query (QueryFirst s) = True"
| "is_query (Search l) = False"

text \<open>The limits of the searches a run enters, in order.\<close>

fun searches :: "event list \<Rightarrow> Limit list" where
  "searches [] = []"
| "searches (Search l # t) = l # searches t"
| "searches (QueryAll s # t) = searches t"
| "searches (QueryFirst s # t) = searches t"

text \<open>What the minimizer asks of a shortened path before it yields it.\<close>

definition accepted :: "Env \<Rightarrow> Element \<Rightarrow> Path \<Rightarrow> bool" where
  "accepted env input q = (fst (unique env q) = Inr True \<and> fst (same env q input) = Inr True)"

section \<open>The renderer as the specification words it\<close>

text \<open>
  The specification's renderer: keep a running query that starts as the target fragment's
  text; for each further fragment, outward, prepend its text with the child combinator
  when its recorded level is exactly one more than the previous fragment's level, and with
  the descendant combinator otherwise.
\<close>

definition combinator_spec :: "Node \<Rightarrow> Node \<Rightarrow> string" where
  "combinator_spec previous fragment =
     (case (level previous, level fragment) of
        (Some a, Some b) \<Rightarrow> if b = a + 1 then '' > '' else '' ''
      | _ \<Rightarrow> '' '')"

fun render_spec :: "Node \<Rightarrow> string \<Rightarrow> Node list \<Rightarrow> string" where
  "render_spec previous query [] = query"
| "render_spec previous query (fragment # rest) =
     render_spec fragment (name fragment @ combinator_spec previous fragment @ query) rest"

section \<open>The stacks a search resolves\<close>

text \<open>
  The levels the loop of \<open>bottomUpSearch\<close> pushes from \<open>current\<close> on: the walk of the
  loop, with its condition and its level for each node, without the resolutions.
\<close>

function levels_from :: "Env \<Rightarrow> Options \<Rightarrow> Limit \<Rightarrow> Element option \<Rightarrow> nat \<Rightarrow> Node list list" where
  "levels_from env config limit current i =
     (case current of
        None \<Rightarrow> []
      | Some cur \<Rightarrow>
          (case deref env cur of
             None \<Rightarrow> []
           | Some el \<Rightarrow>
               if Some cur = parentElement env (root config) then []
               else set_level i (limit_level limit (index env cur) (candidates env config el))
                      # levels_from env config limit (parentElement env cur) (i + 1)))"
  by pat_completeness auto
termination
  by (relation "measure (\<lambda>(env, config, limit, current, i).
        case current of None \<Rightarrow> 0 | Some c \<Rightarrow> Suc (length c))")
    (auto simp: parentElement_def parentNode_def split: option.splits list.splits if_splits)

declare levels_from.simps [simp del]

text \<open>
  The stacks that are resolved while the walk goes on from a stack of \<open>k - 1\<close> levels to
  the whole stack \<open>whole\<close>: each longer stack that has reached the seed length, in order,
  and then the whole stack once more, after the loop.
\<close>

definition stacks_from :: "Node list list \<Rightarrow> nat \<Rightarrow> nat \<Rightarrow> Node list list list" where
  "stacks_from whole seed k =
     map (\<lambda>n. take n whole) (filter (\<lambda>n. seed \<le> n) [k..<Suc (length whole)]) @ [whole]"

definition resolved_stacks :: "Env \<Rightarrow> Options \<Rightarrow> Limit \<Rightarrow> Element \<Rightarrow> Node list list list" where
  "resolved_stacks env config limit input =
     stacks_from (levels_from env config limit (Some input) 0) (seedMinLength config) 1"

text \<open>
  Resolving stacks in turn: the first resolution that raises or returns a path ends the
  run; one that returns no path is followed by the next, and the last one's result stands.
\<close>

fun resolve_in_turn :: "Env \<Rightarrow> Options \<Rightarrow> Path option comp option \<Rightarrow> Node list list list
    \<Rightarrow> Path option comp" where
  "resolve_in_turn env config fallback [] = ret None"
| "resolve_in_turn env config fallback [stack] = findUniquePath env config stack fallback"
| "resolve_in_turn env config fallback (stack # later) =
     (case findUniquePath env config stack fallback of
        (Inl e, t) \<Rightarrow> (Inl e, t)
      | (Inr (Some path), t) \<Rightarrow> (Inr (Some path), t)
      | (Inr None, t) \<Rightarrow> apsnd ((@) t) (resolve_in_turn env config fallback later))"

text \<open>
  The invariant the oracle relies on, for one target: the selector engine matches the
  target with every selector rendered from a combination of the fragments generated for
  the target and its ancestors, for each stack a search resolves.
\<close>

definition own_selectors_match :: "Env \<Rightarrow> Options \<Rightarrow> Element \<Rightarrow> bool" where
  "own_selectors_match env config input =
     (\<forall>limit\<in>set [All, Two, One].
        \<forall>stack\<in>set (resolved_stacks env config limit input).
          \<forall>p\<in>set (combinations stack []).
            case selector p of Inl e \<Rightarrow> True | Inr s \<Rightarrow> input \<in> set (querySelectorAll env s))"

section \<open>Example documents\<close>

text \<open>
  Small documents for evaluating the definitions. Each is a \<open>#document\<close> node with one
  \<open>html\<close> element holding \<open>head\<close> and \<open>body\<close>, so \<open>body\<close> is the reference
  \<open>[1, 0]\<close>. Each environment's \<open>querySelectorAll\<close> lists, for the selectors asked of
  it, the nodes a CSS engine matches in that document, in document order.
\<close>

definition element :: "string \<Rightarrow> string \<Rightarrow> DomNode list \<Rightarrow> DomNode" where
  "element tag ident children = DomNode ELEMENT_NODE tag ident [] [] children"

definition html_document :: "DomNode list \<Rightarrow> DomNode" where
  "html_document children =
     DomNode 9 ''#document'' '''' [] []
       [element ''HTML'' '''' [element ''HEAD'' '''' [], element ''BODY'' '''' children]]"

definition identity_escape :: "string \<Rightarrow> string" where
  "identity_escape s = s"

text \<open>Three plain \<open>p\<close> siblings in a \<open>div\<close>; the second one is \<open>[1, 0, 1, 0]\<close>.\<close>

definition env_three_p :: Env where
  "env_three_p =
     \<lparr>documentNode =
        html_document [element ''DIV'' '''' [element ''P'' '''' [], element ''P'' '''' [], element ''P'' '''' []]],
      body = [1, 0],
      querySelectorAll =
        (\<lambda>s. if s = ''p'' then [[0, 0, 1, 0], [1, 0, 1, 0], [2, 0, 1, 0]]
             else if s = ''p:nth-child(2)'' then [[1, 0, 1, 0]]
             else []),
      cssesc = identity_escape\<rparr>"

text \<open>
  \<open>div#x > section > p\<close> beside an identical \<open>div > section > p\<close> without the id; the
  \<open>p\<close> under \<open>div#x\<close> is \<open>[0, 0, 0, 1, 0]\<close>, the other one \<open>[0, 0, 1, 1, 0]\<close>.
\<close>

definition env_sections :: Env where
  "env_sections =
     \<lparr>documentNode =
        html_document
          [element ''DIV'' ''x'' [element ''SECTION'' '''' [element ''P'' '''' []]],
           element ''DIV'' '''' [element ''SECTION'' '''' [element ''P'' '''' []]]],
      body = [1, 0],
      querySelectorAll =
        (\<lambda>s. if s \<in> {''p'', ''p:nth-child(1)'', ''section > p'', ''section:nth-child(1) > p'',
                       ''section > p:nth-child(1)'', ''section:nth-child(1) > p:nth-child(1)''}
             then [[0, 0, 0, 1, 0], [0, 0, 1, 1, 0]]
             else if s \<in> {''#x > section > p'', ''#x p''} then [[0, 0, 0, 1, 0]]
             else []),
      cssesc = identity_escape\<rparr>"

text \<open>Two sibling \<open>div\<close>s that carry the same id \<open>x\<close>; the second one is \<open>[1, 1, 0]\<close>.\<close>

definition env_dup_id :: Env where
  "env_dup_id =
     \<lparr>documentNode = html_document [element ''DIV'' ''x'' [], element ''DIV'' ''x'' []],
      body = [1, 0],
      querySelectorAll =
        (\<lambda>s. if s \<in> {''#x'', ''body > #x'', ''body:nth-child(2) > #x''}
             then [[0, 1, 0], [1, 1, 0]]
             else []),
      cssesc = identity_escape\<rparr>"

text \<open>
  A second \<open>html\<close> element, appended to \<open>body\<close> through the DOM interface; it is
  \<open>[0, 1, 0]\<close>, the document element is \<open>[0]\<close>.
\<close>

definition env_nested_html :: Env where
  "env_nested_html =
     \<lparr>documentNode = html_document [element ''HTML'' '''' []],
      body = [1, 0],
      querySelectorAll = (\<lambda>s. if s = ''html'' then [[0], [0, 1, 0]] else []),
      cssesc = identity_escape\<rparr>"

text \<open>
  An inline \<open>svg\<close> with a \<open>linearGradient\<close> child, \<open>[0, 0, 1, 0]\<close>. An SVG element
  keeps the case of its tag name, and a type selector matches it case-sensitively, so the
  lower-cased name matches nothing.
\<close>

definition env_svg :: Env where
  "env_svg =
     \<lparr>documentNode = html_document [element ''svg'' '''' [element ''linearGradient'' '''' []]],
      body = [1, 0],
      querySelectorAll =
        (\<lambda>s. if s = ''svg'' then [[0, 1, 0]]
             else if s = ''linearGradient'' then [[0, 0, 1, 0]]
             else []),
      cssesc = identity_escape\<rparr>"

definition no_options :: PartialOptions where
  "no_options =
     \<lparr>p_root = None, p_className = None, p_dataAttribute = None, p_tagName = None,
      p_seedMinLength = None, p_optimizedMinLength = None, p_threshold = None\<rparr>"

text \<open>
  The path the search finds for the \<open>p\<close> under \<open>div#x\<close> in \<open>env_sections\<close>:
  \<open>#x > section > p\<close>.
\<close>

definition path_sections :: Path where
  "path_sections =
     [\<lparr>name = ''p'', penalty = 3, level = Some 0\<rparr>,
      \<lparr>name = ''section'', penalty = 3, level = Some 1\<rparr>,
      \<lparr>name = ''#x'', penalty = 0, level = Some 2\<rparr>]"

text \<open>The level of the second \<open>p\<close> of \<open>env_three_p\<close> under the limit \<open>All\<close>.\<close>

definition stack_three_p :: "Node list list" where
  "stack_three_p =
     [[\<lparr>name = ''p'', penalty = 3, level = Some 0\<rparr>,
       \<lparr>name = ''p:nth-child(2)'', penalty = 4, level = Some 0\<rparr>]]"


text \<open>
  The document of \<open>env_svg\<close> with an unknown HTML element \<open>lineargradient\<close> beside the
  \<open>svg\<close>, \<open>[1, 1, 0]\<close>: the lower-cased name matches that element and not the
  \<open>linearGradient\<close> of the \<open>svg\<close>, \<open>[0, 0, 1, 0]\<close>.
\<close>

definition env_svg_clash :: Env where
  "env_svg_clash =
     \<lparr>documentNode =
        html_document
          [element ''svg'' '''' [element ''linearGradient'' '''' []],
           element ''LINEARGRADIENT'' '''' []],
      body = [1, 0],
      querySelectorAll =
        (\<lambda>s. if s = ''lineargradient'' then [[1, 1, 0]]
             else if s = ''lineargradient:nth-child(2)'' then [[1, 1, 0]]
             else []),
      cssesc = identity_escape\<rparr>"

section \<open>Properties of the candidate generator\<close>

text \<open>
  C3. For every node the candidate generator returns a non-empty list, chosen by a chain of
  fallbacks that stops at the first tier that is not empty: the single fragment \<open>#\<close> plus the
  escaped id with penalty 0 when the id is not empty; otherwise one \<open>.class\<close> fragment with
  penalty 1 for each class name the class-name filter admits; otherwise one
  \<open>[name="value"]\<close> fragment with penalty 2 for each attribute whose name starts with
  \<open>data-\<close> and which the data-attribute filter admits; otherwise the lower-cased tag name
  with penalty 3 when the tag-name filter admits it; otherwise the single \<open>*\<close> with
  penalty 4.
\<close>

theorem candidates_fallback_chain:
  "candidates env config el \<noteq> [] \<and>
   candidates env config el =
     (if dom_id el \<noteq> ''''
      then [\<lparr>name = ''#'' @ cssesc env (dom_id el), penalty = 0, level = None\<rparr>]
      else if filter (className config) (dom_classList el) \<noteq> []
      then map (\<lambda>c. \<lparr>name = ''.'' @ cssesc env c, penalty = 1, level = None\<rparr>)
             (filter (className config) (dom_classList el))
      else if filter (\<lambda>a. startsWith (fst a) ''data-'' \<and> dataAttribute config (fst a))
                (dom_attributes el) \<noteq> []
      then map (\<lambda>a. \<lparr>name = ''['' @ fst a @ ''=\"'' @ snd a @ ''\"]'', penalty = 2, level = None\<rparr>)
             (filter (\<lambda>a. startsWith (fst a) ''data-'' \<and> dataAttribute config (fst a))
                (dom_attributes el))
      else if tagName config (toLowerCase (dom_tagName el))
      then [\<lparr>name = toLowerCase (dom_tagName el), penalty = 3, level = None\<rparr>]
      else [\<lparr>name = ''*'', penalty = 4, level = None\<rparr>])"
proof -
  have swap: "filter (\<lambda>a. dataAttribute config (fst a) \<and> startsWith (fst a) ''data-'') xs
      = filter (\<lambda>a. startsWith (fst a) ''data-'' \<and> dataAttribute config (fst a)) xs" for xs
    by (rule filter_cong) auto
  have not_null: "map the (filter (\<lambda>v. v \<noteq> None) (map Some xs)) = xs" for xs :: "Node list"
    by (induction xs) auto
  show ?thesis
    by (simp add: candidates_def maybe_def or_else_def id_node_def classNames_def
        dataAttributes_def tagName_node_def any_def Let_def not_null swap)
qed

section \<open>Properties of the sibling-position augmentation\<close>

text \<open>
  \<open>index\<close> of the child at position \<open>k\<close> of a parent is the number of element nodes
  among the parent's children up to and including that child: its 1-based position among
  the element siblings.
\<close>

lemma index_loop_counts:
  "children \<noteq> [] \<Longrightarrow>
   index_loop children k i
     = i + length (filter (\<lambda>c. dom_nodeType c = ELEMENT_NODE) (take (Suc k) children))"
proof (induction children k i rule: index_loop.induct)
  case (1 k i)
  then show ?case by simp
next
  case (2 child rest k i)
  show ?case
  proof (cases "k = 0 \<or> rest = []")
    case True
    then show ?thesis by auto
  next
    case False
    then obtain k' where k: "k = Suc k'" by (cases k) auto
    show ?thesis
      using False "2.IH" [OF refl False] k by (simp add: Let_def)
  qed
qed

lemma index_position:
  assumes "deref env p = Some parent" and "k < length (dom_childNodes parent)"
  shows "index env (k # p)
     = Some (length (filter (\<lambda>c. dom_nodeType c = ELEMENT_NODE)
               (take (Suc k) (dom_childNodes parent))))"
  using assms index_loop_counts [of "dom_childNodes parent" k 0]
  by (cases "dom_childNodes parent") (auto simp: index_def)

text \<open>
  C4, as the code has it. When the node has a position \<open>k\<close> (1-based, so not 0): under
  the limit \<open>All\<close> every fragment of the tier whose text is neither \<open>html\<close> nor starts
  with \<open>#\<close> also yields a fragment with \<open>:nth-child(k)\<close> appended and a penalty one
  greater, and these come after the whole tier; under \<open>Two\<close> the same holds of the tier
  cut down to its first fragment; under \<open>One\<close> the tier is cut down to its first fragment
  and that fragment, when it is dispensable, is replaced by its augmented form. A fragment
  whose text starts with \<open>#\<close> is never augmented.
\<close>

theorem limit_level_augments:
  assumes "nth' = Some k" and "k \<noteq> 0"
  shows "limit_level All nth' lvl =
           lvl @ map (\<lambda>node. \<lparr>name = name node @ '':nth-child('' @ digits k @ '')'',
                               penalty = penalty node + 1, level = None\<rparr>)
                   (filter (\<lambda>node. name node \<noteq> ''html'' \<and> take 1 (name node) \<noteq> ''#'') lvl)
       \<and> limit_level Two nth' lvl =
           take 1 lvl @ map (\<lambda>node. \<lparr>name = name node @ '':nth-child('' @ digits k @ '')'',
                               penalty = penalty node + 1, level = None\<rparr>)
                   (filter (\<lambda>node. name node \<noteq> ''html'' \<and> take 1 (name node) \<noteq> ''#'') (take 1 lvl))
       \<and> limit_level One nth' lvl =
           (case lvl of
              [] \<Rightarrow> []
            | node # rest \<Rightarrow>
                if name node \<noteq> ''html'' \<and> take 1 (name node) \<noteq> ''#''
                then [\<lparr>name = name node @ '':nth-child('' @ digits k @ '')'',
                       penalty = penalty node + 1, level = None\<rparr>]
                else [node])"
proof -
  have d: "dispensableNth = (\<lambda>node. name node \<noteq> ''html'' \<and> take 1 (name node) \<noteq> ''#'')"
    by (auto simp: dispensableNth_def startsWith_def fun_eq_iff)
  show ?thesis
    using assms
    by (cases lvl) (simp_all add: limit_level_def truthy_def nthChild_def d Let_def)
qed

theorem limit_level_augments_witness:
  "index env_three_p [1, 0, 1, 0] = Some 2 \<and> (2 :: nat) \<noteq> 0
   \<and> limit_level All (index env_three_p [1, 0, 1, 0])
        [\<lparr>name = ''p'', penalty = 3, level = None\<rparr>]
       = [\<lparr>name = ''p'', penalty = 3, level = None\<rparr>,
          \<lparr>name = ''p:nth-child(2)'', penalty = 4, level = None\<rparr>]
   \<and> limit_level Two (index env_three_p [1, 0, 1, 0])
        [\<lparr>name = ''.a'', penalty = 1, level = None\<rparr>, \<lparr>name = ''.b'', penalty = 1, level = None\<rparr>]
       = [\<lparr>name = ''.a'', penalty = 1, level = None\<rparr>,
          \<lparr>name = ''.a:nth-child(2)'', penalty = 2, level = None\<rparr>]"
proof -
  have h: "index env_three_p [1, 0, 1, 0] = Some 2"
    by code_simp
  have d: "digits 2 = ''2''"
    by (simp add: digits.simps)
  show ?thesis
    using h d
      limit_level_augments [OF h, of "[\<lparr>name = ''p'', penalty = 3, level = None\<rparr>]"]
      limit_level_augments [OF h, of "[\<lparr>name = ''.a'', penalty = 1, level = None\<rparr>,
         \<lparr>name = ''.b'', penalty = 1, level = None\<rparr>]"]
    by simp
qed

text \<open>
  The claim as it is worded fails under the limit \<open>One\<close>: for the second \<open>p\<close> of three
  siblings the tier is the dispensable fragment \<open>p\<close>, the position is 2, and the level is
  the augmented fragment alone; the fragment \<open>p\<close> it should come after is not kept.
\<close>

theorem limit_level_One_counterexample:
  "index env_three_p [1, 0, 1, 0] = Some 2
   \<and> candidates env_three_p (defaults env_three_p) (element ''P'' '''' [])
       = [\<lparr>name = ''p'', penalty = 3, level = None\<rparr>]
   \<and> dispensableNth \<lparr>name = ''p'', penalty = 3, level = None\<rparr>
   \<and> limit_level One (index env_three_p [1, 0, 1, 0])
        (candidates env_three_p (defaults env_three_p) (element ''P'' '''' []))
       = [\<lparr>name = ''p:nth-child(2)'', penalty = 4, level = None\<rparr>]
   \<and> \<lparr>name = ''p'', penalty = 3, level = None\<rparr>
       \<notin> set (limit_level One (index env_three_p [1, 0, 1, 0])
               (candidates env_three_p (defaults env_three_p) (element ''P'' '''' [])))"
  by code_simp

section \<open>Properties of the oracle\<close>

text \<open>
  C7. For a path that renders to a selector, the uniqueness oracle raises an error exactly
  when the selector matches no node, answers true exactly when it matches one node, and
  answers false, raising nothing, exactly when it matches more than one; it asks the
  document once.
\<close>

theorem unique_classifies:
  assumes "selector path = Inr s"
  shows "((\<exists>e. fst (unique env path) = Inl e) \<longleftrightarrow> length (querySelectorAll env s) = 0)
       \<and> (fst (unique env path) = Inr True \<longleftrightarrow> length (querySelectorAll env s) = 1)
       \<and> (fst (unique env path) = Inr False \<longleftrightarrow> length (querySelectorAll env s) > 1)
       \<and> snd (unique env path) = [QueryAll s]"
  using assms by (auto simp: unique_def split: nat.splits)

theorem unique_classifies_witness:
  "selector [\<lparr>name = ''p'', penalty = 3, level = Some 0\<rparr>] = Inr ''p''
   \<and> length (querySelectorAll env_three_p ''p'') = 3
   \<and> fst (unique env_three_p [\<lparr>name = ''p'', penalty = 3, level = Some 0\<rparr>]) = Inr False
   \<and> snd (unique env_three_p [\<lparr>name = ''p'', penalty = 3, level = Some 0\<rparr>]) = [QueryAll ''p'']"
proof -
  have h: "selector [\<lparr>name = ''p'', penalty = 3, level = Some 0\<rparr>] = Inr ''p''"
    by (simp add: selector_def)
  have l: "length (querySelectorAll env_three_p ''p'') = 3"
    by (simp add: env_three_p_def)
  show ?thesis
    using h l unique_classifies [OF h, of env_three_p] by simp
qed

section \<open>Properties of the renderer\<close>

lemma selector_loop_render: "selector_loop node query rest = render_spec node query rest"
proof (induction rest arbitrary: node query)
  case Nil
  show ?case by simp
next
  case (Cons p rest)
  have "(map_option int (level node) = Some (int (case level p of None \<Rightarrow> 0 | Some l \<Rightarrow> l) - 1))
      \<longleftrightarrow> (\<exists>a b. level node = Some a \<and> level p = Some b \<and> b = a + 1)"
    by (cases "level node"; cases "level p") auto
  then show ?case
    using Cons.IH by (auto simp: combinator_spec_def Let_def split: option.splits)
qed

text \<open>
  C8. The renderer of the source computes the renderer of the specification: for a path
  with a target fragment at index 0, it folds from index 0 outward and joins each fragment
  to the query so far with \<open>>\<close> exactly when that fragment's recorded level is one more
  than the level of the fragment before it, and with a space otherwise. Levels are the
  depths counted from 0 by the search, so this holds also where a level is missing; the
  paths of the claim, whose fragments beyond index 0 all carry a level, are among these.
\<close>

theorem selector_renders:
  "selector (target # rest) = Inr (render_spec target (name target) rest)"
  by (simp add: selector_def selector_loop_render)

theorem selector_renders_witness:
  "selector path_sections = Inr ''#x > section > p''
   \<and> render_spec \<lparr>name = ''p'', penalty = 3, level = Some 0\<rparr> ''p''
        [\<lparr>name = ''section'', penalty = 3, level = Some 1\<rparr>,
         \<lparr>name = ''#x'', penalty = 0, level = Some 2\<rparr>] = ''#x > section > p''
   \<and> selector [\<lparr>name = ''p'', penalty = 3, level = Some 0\<rparr>,
                \<lparr>name = ''#x'', penalty = 0, level = Some 2\<rparr>] = Inr ''#x p''"
  using
    selector_renders [of "\<lparr>name = ''p'', penalty = 3, level = Some 0\<rparr>"
      "[\<lparr>name = ''section'', penalty = 3, level = Some 1\<rparr>,
        \<lparr>name = ''#x'', penalty = 0, level = Some 2\<rparr>]"]
    selector_renders [of "\<lparr>name = ''p'', penalty = 3, level = Some 0\<rparr>"
      "[\<lparr>name = ''#x'', penalty = 0, level = Some 2\<rparr>]"]
  by (simp add: path_sections_def combinator_spec_def)

section \<open>Properties of the resolution of a stack\<close>

lemma unique_events: "length (snd (unique env p)) \<le> 1"
  by (auto simp: unique_def throw_def split: sum.splits nat.splits)

lemma test_candidates_events: "length (snd (test_candidates env ps)) \<le> length ps"
proof (induction ps)
  case Nil
  show ?case by (simp add: ret_def)
next
  case (Cons p ps)
  obtain r t where u: "unique env p = (r, t)" by (cases "unique env p")
  have "length t \<le> 1" using unique_events [of env p] u by simp
  then show ?case
    using Cons.IH u by (auto simp: bind_def ret_def split: sum.splits)
qed

text \<open>
  C6. When the number of combinations of a stack exceeds the threshold, its resolution
  asks the document nothing: without a fallback it returns no path with no event, and with
  a fallback it is exactly the call of the fallback. Within the threshold the fallback
  plays no part. So the queries issued for one stack, those of the resolution without a
  fallback, are never more than the threshold.
\<close>

theorem findUniquePath_budget:
  "(threshold config < length (combinations stack []) \<longrightarrow>
      findUniquePath env config stack None = (Inr None, [])
      \<and> findUniquePath env config stack (Some fb) = fb)
   \<and> (length (combinations stack []) \<le> threshold config \<longrightarrow>
      findUniquePath env config stack (Some fb) = findUniquePath env config stack None)
   \<and> length (filter is_query (snd (findUniquePath env config stack None))) \<le> threshold config"
proof -
  have "length (snd (findUniquePath env config stack None)) \<le> threshold config"
    using test_candidates_events [of env "sort_paths (combinations stack [])"]
    by (auto simp: findUniquePath_def sort_paths_def ret_def Let_def)
  moreover have "length (filter is_query t) \<le> length t" for t :: "event list"
    by simp
  ultimately have
    "length (filter is_query (snd (findUniquePath env config stack None))) \<le> threshold config"
    using le_trans by blast
  then show ?thesis
    by (simp add: findUniquePath_def sort_paths_def ret_def Let_def)
qed

theorem findUniquePath_budget_witness:
  "threshold ((defaults env_three_p)\<lparr>threshold := 1\<rparr>) < length (combinations stack_three_p [])
   \<and> findUniquePath env_three_p ((defaults env_three_p)\<lparr>threshold := 1\<rparr>) stack_three_p None
       = (Inr None, [])
   \<and> findUniquePath env_three_p ((defaults env_three_p)\<lparr>threshold := 1\<rparr>) stack_three_p
         (Some (Inr None, [Search Two])) = (Inr None, [Search Two])
   \<and> length (filter is_query
        (snd (findUniquePath env_three_p ((defaults env_three_p)\<lparr>threshold := 1\<rparr>)
           stack_three_p None))) \<le> 1"
proof -
  have h: "threshold ((defaults env_three_p)\<lparr>threshold := 1\<rparr>)
      < length (combinations stack_three_p [])"
    by (simp add: stack_three_p_def)
  show ?thesis
    using h findUniquePath_budget [of "(defaults env_three_p)\<lparr>threshold := 1\<rparr>" stack_three_p
        env_three_p "(Inr None, [Search Two])"]
    by simp
qed

section \<open>Properties of the minimizer\<close>

lemma penalty_path_sum: "penalty_path p = sum_list (map penalty p)"
proof -
  have "foldl (\<lambda>acc i. acc + i) a xs = a + sum_list xs" for a :: nat and xs
    by (induction xs arbitrary: a) auto
  then show ?thesis by (simp add: penalty_path_def)
qed

lemma penalty_splice: "penalty_path (take i p @ drop (i + 1) p) \<le> penalty_path p"
proof -
  have a: "sum_list (map penalty p)
      = sum_list (map penalty (take i p)) + sum_list (map penalty (drop i p))"
    by (metis append_take_drop_id map_append sum_list.append)
  have b: "sum_list (map penalty (drop (Suc i) p)) \<le> sum_list (map penalty (drop i p))"
    by (cases "drop i p") (auto simp: drop_Suc drop_tl)
  show ?thesis using a b by (simp add: penalty_path_sum)
qed

text \<open>
  Every path the minimizer yields was accepted (it matches one node, and that node is the
  target) and costs no more than the path the minimizer was given.
\<close>

lemma optimize_yields:
  "optimize env config path input = (Inr ys, t) \<Longrightarrow> q \<in> set ys
     \<Longrightarrow> accepted env input q \<and> penalty_path q \<le> penalty_path path"
  "optimize_loop env config path input i = (Inr ys, t) \<Longrightarrow> q \<in> set ys
     \<Longrightarrow> accepted env input q \<and> penalty_path q \<le> penalty_path path"
proof (induction env config path input and env config path input i arbitrary: ys t q and ys t q
    rule: optimize_optimize_loop.induct)
  case (1 env config path input)
  show ?case
  proof (cases "2 < length path \<and> optimizedMinLength config < length path")
    case True
    then have "optimize_loop env config path input 1 = (Inr ys, t)"
      using "1.prems"(1) by (simp add: optimize.simps [of env config path input])
    then show ?thesis using "1.IH" [OF True] "1.prems"(2) by blast
  next
    case False
    then have "ys = []"
      using "1.prems"(1) by (auto simp: optimize.simps [of env config path input] ret_def)
    then show ?thesis using "1.prems"(2) by simp
  qed
next
  case (2 env config path input i)
  define n where "n = take i path @ drop (i + 1) path"
  have le: "penalty_path n \<le> penalty_path path"
    unfolding n_def by (rule penalty_splice)
  note unfold = optimize_loop.simps [of env config path input i, unfolded Let_def, folded n_def]
  show ?case
  proof (cases "i < length path - 1")
    case False
    then have "ys = []" using "2.prems"(1) by (auto simp: unfold ret_def)
    then show ?thesis using "2.prems"(2) by simp
  next
    case True
    obtain ru tu where u: "unique env n = (ru, tu)" by (cases "unique env n")
    show ?thesis
    proof (cases ru)
      case (Inl e)
      then show ?thesis using "2.prems"(1) True u by (simp add: unfold)
    next
      case (Inr b)
      note ru = Inr
      show ?thesis
      proof (cases b)
        case False
        then have bf: "b = False" by simp
        from False obtain t' where "optimize_loop env config path input (i + 1) = (Inr ys, t')"
          using "2.prems"(1) True u ru
          by (cases "optimize_loop env config path input (i + 1)")
            (simp add: unfold)
        then show ?thesis
          using "2.IH"(4) [OF True n_def u [symmetric] ru bf] "2.prems"(2) by blast
      next
        case True
        then have b: "b = True" by simp
        obtain rs ts where s: "same env n input = (rs, ts)" by (cases "same env n input")
        show ?thesis
        proof (cases rs)
          case (Inl e)
          then show ?thesis
            using "2.prems"(1) \<open>i < length path - 1\<close> u ru b s
            by (simp add: unfold)
        next
          case (Inr c)
          note rs = Inr
          show ?thesis
          proof (cases c)
            case False
            then have cf: "c = False" by simp
            from False obtain t' where "optimize_loop env config path input (i + 1) = (Inr ys, t')"
              using "2.prems"(1) \<open>i < length path - 1\<close> u ru b s rs
              by (cases "optimize_loop env config path input (i + 1)")
                (simp add: unfold)
            then show ?thesis
              using "2.IH"(3) [OF \<open>i < length path - 1\<close> n_def u [symmetric] ru b s [symmetric] rs cf]
                "2.prems"(2) by blast
          next
            case True
            then have c: "c = True" by simp
            have acc: "accepted env input n"
              using u ru b s rs c by (simp add: accepted_def)
            obtain ro to where o: "optimize env config n input = (ro, to)"
              by (cases "optimize env config n input")
            show ?thesis
            proof (cases ro)
              case (Inl e)
              then show ?thesis
                using "2.prems"(1) \<open>i < length path - 1\<close> u ru b s rs c o
                by (simp add: unfold)
            next
              case (Inr inner)
              note ro = Inr
              obtain rl tl where l: "optimize_loop env config path input (i + 1) = (rl, tl)"
                by (cases "optimize_loop env config path input (i + 1)")
              show ?thesis
              proof (cases rl)
                case (Inl e)
                then show ?thesis
                  using "2.prems"(1) \<open>i < length path - 1\<close> u ru b s rs c o ro l
                  by (simp add: unfold)
              next
                case (Inr later)
                then have ys: "ys = n # inner @ later"
                  using "2.prems"(1) \<open>i < length path - 1\<close> u ru b s rs c o ro l
                  by (simp add: unfold)
                have inner: "accepted env input q \<and> penalty_path q \<le> penalty_path n"
                  if "q \<in> set inner"
                  using "2.IH"(1) [OF \<open>i < length path - 1\<close> n_def u [symmetric] ru b s [symmetric] rs c
                      o [unfolded ro] that] .
                have later: "accepted env input q \<and> penalty_path q \<le> penalty_path path"
                  if "q \<in> set later"
                  using "2.IH"(2) [OF \<open>i < length path - 1\<close> n_def u [symmetric] ru b s [symmetric] rs c
                      o [symmetric] ro l [unfolded Inr] that] .
                from "2.prems"(2) ys consider "q = n" | "q \<in> set inner" | "q \<in> set later"
                  by auto
                then show ?thesis
                proof cases
                  case 1
                  then show ?thesis using acc le by simp
                next
                  case 2
                  then show ?thesis using inner le by fastforce
                next
                  case 3
                  then show ?thesis using later by simp
                qed
              qed
            qed
          qed
        qed
      qed
    qed
  qed
qed

lemma sort_paths_first:
  assumes "yielded \<noteq> []"
  shows "sort_paths yielded ! 0 \<in> set yielded"
    and "\<forall>q\<in>set yielded. penalty_path (sort_paths yielded ! 0) \<le> penalty_path q"
proof -
  obtain a as where s: "sort_paths yielded = a # as"
    using assms by (cases "sort_paths yielded") (auto simp: sort_paths_def dest: arg_cong [where f = length])
  have "set (sort_paths yielded) = set yielded" by (simp add: sort_paths_def)
  then have mem: "set yielded = insert a (set as)" using s by simp
  then show "sort_paths yielded ! 0 \<in> set yielded" using s by simp
  have "sorted (map penalty_path (sort_paths yielded))" by (simp add: sort_paths_def)
  then have "\<forall>q\<in>set as. penalty_path a \<le> penalty_path q" using s by simp
  then show "\<forall>q\<in>set yielded. penalty_path (sort_paths yielded ! 0) \<le> penalty_path q"
    using s mem by simp
qed

text \<open>
  C9. When the minimizer runs to its end on a path, the path then selected, the first of
  the yielded paths sorted by penalty or the given path when nothing was yielded, costs no
  more than the given path; it costs no more than any yielded path; and it is the given
  path itself when nothing was yielded.
\<close>

theorem minimizer_monotone:
  assumes "optimize env config path input = (Inr yielded, t)"
  shows "penalty_path (if length (sort_paths yielded) > 0 then sort_paths yielded ! 0 else path)
           \<le> penalty_path path
       \<and> (\<forall>q\<in>set yielded.
            penalty_path (if length (sort_paths yielded) > 0 then sort_paths yielded ! 0 else path)
              \<le> penalty_path q)
       \<and> (yielded = [] \<longrightarrow>
            (if length (sort_paths yielded) > 0 then sort_paths yielded ! 0 else path) = path)"
proof (cases "yielded = []")
  case True
  then show ?thesis by (simp add: sort_paths_def)
next
  case False
  then have len: "length (sort_paths yielded) > 0" by (simp add: sort_paths_def)
  have "penalty_path (sort_paths yielded ! 0) \<le> penalty_path path"
    using optimize_yields(1) [OF assms sort_paths_first(1) [OF False]] by simp
  then show ?thesis
    using len False sort_paths_first(2) [OF False] by simp
qed

theorem minimizer_monotone_witness:
  "optimize env_sections (defaults env_sections) path_sections [0, 0, 0, 1, 0]
     = (Inr [[\<lparr>name = ''p'', penalty = 3, level = Some 0\<rparr>,
              \<lparr>name = ''#x'', penalty = 0, level = Some 2\<rparr>]],
        [QueryAll ''#x p'', QueryFirst ''#x p''])
   \<and> penalty_path
        (if length (sort_paths [[\<lparr>name = ''p'', penalty = 3, level = Some 0\<rparr>,
                                 \<lparr>name = ''#x'', penalty = 0, level = Some 2\<rparr>]]) > 0
         then sort_paths [[\<lparr>name = ''p'', penalty = 3, level = Some 0\<rparr>,
                           \<lparr>name = ''#x'', penalty = 0, level = Some 2\<rparr>]] ! 0
         else path_sections)
       \<le> penalty_path path_sections"
proof -
  have h: "optimize env_sections (defaults env_sections) path_sections [0, 0, 0, 1, 0]
     = (Inr [[\<lparr>name = ''p'', penalty = 3, level = Some 0\<rparr>,
              \<lparr>name = ''#x'', penalty = 0, level = Some 2\<rparr>]],
        [QueryAll ''#x p'', QueryFirst ''#x p''])"
    by code_simp
  show ?thesis
    using h minimizer_monotone [OF h] by simp
qed

section \<open>The order in which a stack is resolved\<close>

lemma combinations_product: "combinations stack path = map ((@) path) (product_lists stack)"
proof (induction stack arbitrary: path)
  case Nil
  show ?case by simp
next
  case (Cons lvl rest)
  show ?case
    by (simp add: Cons.IH map_concat comp_def)
qed

lemma test_candidates_none:
  "\<forall>q\<in>set ps. fst (unique env q) = Inr False \<Longrightarrow> fst (test_candidates env ps) = Inr None"
proof (induction ps)
  case Nil
  show ?case by (simp add: ret_def)
next
  case (Cons p ps)
  obtain t where "unique env p = (Inr False, t)"
    using Cons.prems by (cases "unique env p") auto
  then show ?case using Cons by (simp add: bind_def)
qed

lemma test_candidates_first:
  assumes "\<forall>q\<in>set before. fst (unique env q) = Inr False"
  shows "fst (unique env p) = Inr True
           \<Longrightarrow> fst (test_candidates env (before @ p # after)) = Inr (Some p)"
    and "fst (unique env p) = Inl e
           \<Longrightarrow> fst (test_candidates env (before @ p # after)) = Inl e"
  using assms
proof (induction before)
  case Nil
  {
    case 1
    then obtain t where "unique env p = (Inr True, t)" by (cases "unique env p") auto
    then show ?case by (simp add: bind_def ret_def)
  next
    case 2
    then obtain t where "unique env p = (Inl e, t)" by (cases "unique env p") auto
    then show ?case by (simp add: bind_def)
  }
next
  case (Cons b before)
  {
    case 1
    obtain t where "unique env b = (Inr False, t)"
      using "1.prems" by (cases "unique env b") auto
    then show ?case using Cons.IH(1) "1.prems" by (simp add: bind_def)
  next
    case 2
    obtain t where "unique env b = (Inr False, t)"
      using "2.prems" by (cases "unique env b") auto
    then show ?case using Cons.IH(2) "2.prems" by (simp add: bind_def)
  }
qed

text \<open>
  C5, as the code has it. Within the threshold the fallback plays no part. The combinations
  are generated in lexicographic order of the candidates' ranks, the target's level first
  (\<open>product_lists\<close>); they are sorted by ascending total penalty, the sum of the fragments'
  penalties, and combinations of equal penalty keep their generation order; they are put
  to the oracle in that order. If the oracle finds every combination ambiguous, there is
  no path and no error. The first combination the oracle does not find ambiguous decides:
  if it matches one node it is returned, and if it matches none the oracle's error is
  raised.
\<close>

theorem findUniquePath_resolves:
  assumes "length (combinations stack []) \<le> threshold config"
  shows "combinations stack [] = product_lists stack
       \<and> sorted (map penalty_path (sort_paths (combinations stack [])))
       \<and> (\<forall>k. filter (\<lambda>p. penalty_path p = k) (sort_paths (combinations stack []))
                = filter (\<lambda>p. penalty_path p = k) (combinations stack []))
       \<and> (\<forall>p. penalty_path p = sum_list (map penalty p))
       \<and> ((\<forall>q\<in>set (combinations stack []). fst (unique env q) = Inr False)
            \<longrightarrow> fst (findUniquePath env config stack fallback) = Inr None)
       \<and> (\<forall>before p after.
             sort_paths (combinations stack []) = before @ p # after
             \<and> (\<forall>q\<in>set before. fst (unique env q) = Inr False)
             \<longrightarrow> (fst (unique env p) = Inr True
                    \<longrightarrow> fst (findUniquePath env config stack fallback) = Inr (Some p))
                \<and> (\<forall>e. fst (unique env p) = Inl e
                    \<longrightarrow> fst (findUniquePath env config stack fallback) = Inl e))"
proof -
  have run: "findUniquePath env config stack fallback
      = test_candidates env (sort_paths (combinations stack []))"
    using assms by (simp add: findUniquePath_def Let_def sort_paths_def)
  have a: "combinations stack [] = product_lists stack"
    by (simp add: combinations_product map_idI)
  have b: "sorted (map penalty_path (sort_paths (combinations stack [])))"
    by (simp add: sort_paths_def)
  have c: "\<forall>k. filter (\<lambda>p. penalty_path p = k) (sort_paths (combinations stack []))
                = filter (\<lambda>p. penalty_path p = k) (combinations stack [])"
    by (simp add: sort_paths_def sort_key_stable)
  have d: "\<forall>p. penalty_path p = sum_list (map penalty p)"
    by (simp add: penalty_path_sum)
  have e: "(\<forall>q\<in>set (combinations stack []). fst (unique env q) = Inr False)
            \<longrightarrow> fst (findUniquePath env config stack fallback) = Inr None"
    using test_candidates_none [of "sort_paths (combinations stack [])" env]
    by (simp add: run sort_paths_def)
  have f: "\<forall>before p after.
             sort_paths (combinations stack []) = before @ p # after
             \<and> (\<forall>q\<in>set before. fst (unique env q) = Inr False)
             \<longrightarrow> (fst (unique env p) = Inr True
                    \<longrightarrow> fst (findUniquePath env config stack fallback) = Inr (Some p))
                \<and> (\<forall>e. fst (unique env p) = Inl e
                    \<longrightarrow> fst (findUniquePath env config stack fallback) = Inl e)"
    using test_candidates_first [of _ env] by (simp add: run)
  show ?thesis
    using a b c d e f by blast
qed

theorem findUniquePath_resolves_witness:
  "length (combinations stack_three_p []) \<le> threshold (defaults env_three_p)
   \<and> sort_paths (combinations stack_three_p [])
       = [[\<lparr>name = ''p'', penalty = 3, level = Some 0\<rparr>],
          [\<lparr>name = ''p:nth-child(2)'', penalty = 4, level = Some 0\<rparr>]]
   \<and> fst (unique env_three_p [\<lparr>name = ''p'', penalty = 3, level = Some 0\<rparr>]) = Inr False
   \<and> fst (unique env_three_p [\<lparr>name = ''p:nth-child(2)'', penalty = 4, level = Some 0\<rparr>]) = Inr True
   \<and> fst (findUniquePath env_three_p (defaults env_three_p) stack_three_p None)
       = Inr (Some [\<lparr>name = ''p:nth-child(2)'', penalty = 4, level = Some 0\<rparr>])"
proof -
  have h: "length (combinations stack_three_p []) \<le> threshold (defaults env_three_p)"
    by (simp add: stack_three_p_def defaults_def)
  have s: "sort_paths (combinations stack_three_p [])
       = [[\<lparr>name = ''p'', penalty = 3, level = Some 0\<rparr>]]
         @ [\<lparr>name = ''p:nth-child(2)'', penalty = 4, level = Some 0\<rparr>] # []"
    by code_simp
  have u1: "fst (unique env_three_p [\<lparr>name = ''p'', penalty = 3, level = Some 0\<rparr>]) = Inr False"
    by code_simp
  have u2: "fst (unique env_three_p [\<lparr>name = ''p:nth-child(2)'', penalty = 4, level = Some 0\<rparr>])
      = Inr True"
    by code_simp
  have b: "\<forall>q\<in>set [[\<lparr>name = ''p'', penalty = 3, level = Some 0\<rparr>]].
      fst (unique env_three_p q) = Inr False"
    using u1 by simp
  have "fst (findUniquePath env_three_p (defaults env_three_p) stack_three_p None)
       = Inr (Some [\<lparr>name = ''p:nth-child(2)'', penalty = 4, level = Some 0\<rparr>])"
    using findUniquePath_resolves [OF h, of env_three_p None] s b u2 by blast
  then show ?thesis
    using h s u1 u2 by simp
qed

text \<open>
  The claim as it is worded fails where a combination matches no node. In \<open>env_svg\<close>
  the level of the \<open>linearGradient\<close> element holds the lower-cased tag name and its
  augmented form; there is one level, so two combinations, within the threshold; none of
  them matches exactly one node, and the resolution raises the oracle's error instead of
  returning no path.
\<close>

theorem findUniquePath_error_counterexample:
  "length (combinations
      [set_level 0 (limit_level All (index env_svg [0, 0, 1, 0])
         (candidates env_svg (defaults env_svg) (element ''linearGradient'' '''' [])))] [])
     \<le> threshold (defaults env_svg)
   \<and> length (querySelectorAll env_svg ''lineargradient'') \<noteq> 1
   \<and> length (querySelectorAll env_svg ''lineargradient:nth-child(1)'') \<noteq> 1
   \<and> findUniquePath env_svg (defaults env_svg)
        [set_level 0 (limit_level All (index env_svg [0, 0, 1, 0])
           (candidates env_svg (defaults env_svg) (element ''linearGradient'' '''' [])))] None
       = (Inl (CantSelect ''lineargradient''), [QueryAll ''lineargradient''])"
  by code_simp

section \<open>Properties of the search\<close>


text \<open>
  The loop as a sequence of resolutions: from a stack of \<open>length stack\<close> levels on it
  resolves, in turn, the stacks listed by \<open>stacks_from\<close>.
\<close>

lemma stacks_from_end: "stacks_from whole seed (Suc (length whole)) = [whole]"
  by (simp add: stacks_from_def)

lemma stacks_from_step:
  assumes "k \<le> length whole"
  shows "stacks_from whole seed k
     = (if seed \<le> k then [take k whole] else []) @ stacks_from whole seed (Suc k)"
proof -
  have "[k..<Suc (length whole)] = k # [Suc k..<Suc (length whole)]"
    using assms by (simp add: upt_conv_Cons)
  then show ?thesis by (simp add: stacks_from_def)
qed

lemma stacks_from_nonempty: "stacks_from whole seed k \<noteq> []"
  by (simp add: stacks_from_def)

lemma resolve_in_turn_Cons:
  assumes "later \<noteq> []"
  shows "resolve_in_turn env config fallback (stack # later) =
     (case findUniquePath env config stack fallback of
        (Inl e, t) \<Rightarrow> (Inl e, t)
      | (Inr (Some path), t) \<Rightarrow> (Inr (Some path), t)
      | (Inr None, t) \<Rightarrow> apsnd ((@) t) (resolve_in_turn env config fallback later))"
proof (cases later)
  case Nil
  with assms show ?thesis by simp
next
  case (Cons a list)
  show ?thesis unfolding Cons by simp
qed

lemma bottomUpSearch_loop_resolves:
  "bottomUpSearch_loop env config limit fallback current stack i
     = resolve_in_turn env config fallback
         (stacks_from (stack @ levels_from env config limit current i) (seedMinLength config)
            (Suc (length stack)))"
proof (induction env config limit fallback current stack i rule: bottomUpSearch_loop.induct)
  case (1 env config limit fallback current stack i)
  note unfold = bottomUpSearch_loop.simps [of env config limit fallback current stack i]
  note walk = levels_from.simps [of env config limit current i]
  show ?case
  proof (cases current)
    case None
    then have "levels_from env config limit current i = []" unfolding walk by simp
    then show ?thesis unfolding unfold using None by (simp add: stacks_from_end)
  next
    case (Some cur)
    note current = Some
    show ?thesis
    proof (cases "deref env cur")
      case None
      then have "levels_from env config limit current i = []" unfolding walk using current by simp
      then show ?thesis unfolding unfold using None current by (simp add: stacks_from_end)
    next
      case (Some el)
      note el = Some
      show ?thesis
      proof (cases "Some cur = parentElement env (root config)")
        case True
        then have pe: "parentElement env (root config) = Some cur" by simp
        then have "levels_from env config limit current i = []"
          unfolding walk using current el by simp
        then show ?thesis unfolding unfold using pe current el by (simp add: stacks_from_end)
      next
        case False
        note inside = False
        define lvl where
          "lvl = set_level i (limit_level limit (index env cur) (candidates env config el))"
        define stack' where "stack' = stack @ [lvl]"
        define rest where "rest = levels_from env config limit (parentElement env cur) (i + 1)"
        define whole where "whole = stack' @ rest"
        have levels: "levels_from env config limit current i = lvl # rest"
          unfolding walk using current el inside by (simp add: lvl_def rest_def)
        have whole: "stack @ levels_from env config limit current i = whole"
          by (simp add: levels whole_def stack'_def)
        have len: "length stack' = Suc (length stack)" by (simp add: stack'_def)
        have "Suc (length stack) \<le> length whole" by (simp add: whole_def stack'_def)
        then have step: "stacks_from whole (seedMinLength config) (Suc (length stack))
            = (if seedMinLength config \<le> Suc (length stack) then [stack'] else [])
              @ stacks_from whole (seedMinLength config) (Suc (length stack'))"
          using stacks_from_step [of "Suc (length stack)" whole "seedMinLength config"]
          by (simp add: len whole_def stack'_def)
        show ?thesis
        proof (cases "seedMinLength config \<le> length stack'")
          case False
          have "bottomUpSearch_loop env config limit fallback current stack i
              = bottomUpSearch_loop env config limit fallback (parentElement env cur) stack' (i + 1)"
            unfolding unfold using current el inside False
            by (simp add: Let_def lvl_def stack'_def)
          also have "\<dots> = resolve_in_turn env config fallback
              (stacks_from whole (seedMinLength config) (Suc (length stack')))"
            using "1.IH"(2) [OF current el inside lvl_def stack'_def False]
            by (simp add: whole_def rest_def)
          finally show ?thesis
            using False by (simp add: whole step len)
        next
          case True
          note seed = True
          have seed': "seedMinLength config \<le> Suc (length stack)"
            using seed by (simp add: len)
          obtain r t where f: "findUniquePath env config stack' fallback = (r, t)"
            by (cases "findUniquePath env config stack' fallback")
          have turn: "resolve_in_turn env config fallback
                (stacks_from whole (seedMinLength config) (Suc (length stack)))
              = (case findUniquePath env config stack' fallback of
                   (Inl e, t) \<Rightarrow> (Inl e, t)
                 | (Inr (Some path), t) \<Rightarrow> (Inr (Some path), t)
                 | (Inr None, t) \<Rightarrow>
                     apsnd ((@) t)
                       (resolve_in_turn env config fallback
                          (stacks_from whole (seedMinLength config) (Suc (length stack')))))"
            using seed' by (simp add: step resolve_in_turn_Cons stacks_from_nonempty)
          show ?thesis
          proof (cases "r = Inr None")
            case False
            have "bottomUpSearch_loop env config limit fallback current stack i = (r, t)"
            proof (cases r)
              case (Inl e)
              then show ?thesis
                unfolding unfold using current el inside seed' f
                by (simp add: Let_def lvl_def [symmetric] stack'_def [symmetric])
            next
              case (Inr found)
              with False obtain p where "found = Some p" by (cases found) auto
              then show ?thesis
                unfolding unfold using Inr current el inside seed' f
                by (simp add: Let_def lvl_def [symmetric] stack'_def [symmetric])
            qed
            moreover have "resolve_in_turn env config fallback
                (stacks_from whole (seedMinLength config) (Suc (length stack))) = (r, t)"
              using False f by (cases r; cases "projr r") (auto simp: turn)
            ultimately show ?thesis by (simp add: whole)
          next
            case True
            have "bottomUpSearch_loop env config limit fallback current stack i
                = apsnd ((@) t)
                    (bottomUpSearch_loop env config limit fallback (parentElement env cur)
                       stack' (i + 1))"
              unfolding unfold using True current el inside seed' f
              by (simp add: Let_def lvl_def [symmetric] stack'_def [symmetric])
            also have "bottomUpSearch_loop env config limit fallback (parentElement env cur)
                  stack' (i + 1)
                = resolve_in_turn env config fallback
                    (stacks_from whole (seedMinLength config) (Suc (length stack')))"
              using "1.IH"(1) [OF current el inside lvl_def stack'_def seed f [symmetric] True refl]
              by (simp add: whole_def rest_def)
            finally show ?thesis
              using True f by (simp add: whole turn)
          qed
        qed
      qed
    qed
  qed
qed

lemma bottomUpSearch_resolves:
  "bottomUpSearch env config input limit fallback
     = apsnd ((#) (Search limit))
         (resolve_in_turn env config fallback (resolved_stacks env config limit input))"
  by (simp add: bottomUpSearch_def resolved_stacks_def bottomUpSearch_loop_resolves)

section \<open>Properties of the entry point\<close>

text \<open>
  C10. For an input element whose tag name, lower-cased, is \<open>html\<close>, \<open>generate\<close>
  returns the string \<open>html\<close> at once, whatever options are passed: there is no event, so
  no search is entered and the document is never queried, and the returned selector is
  checked neither for uniqueness nor for identity with the target.
\<close>

theorem generate_html:
  assumes "deref env input = Some el"
    and "dom_nodeType el = ELEMENT_NODE"
    and "toLowerCase (dom_tagName el) = ''html''"
  shows "generate env input options = (Inr ''html'', [])"
  using assms by (simp add: generate_def ret_def)

theorem generate_html_witness:
  "deref env_nested_html [0] = Some (element ''HTML'' '''' [element ''HEAD'' '''' [], element ''BODY'' '''' [element ''HTML'' '''' []]])
   \<and> dom_nodeType (element ''HTML'' '''' [element ''HEAD'' '''' [], element ''BODY'' '''' [element ''HTML'' '''' []]]) = ELEMENT_NODE
   \<and> toLowerCase (dom_tagName (element ''HTML'' '''' [element ''HEAD'' '''' [], element ''BODY'' '''' [element ''HTML'' '''' []]])) = ''html''
   \<and> generate env_nested_html [0] (Some (no_options\<lparr>p_root := Some [0, 1, 0], p_threshold := Some 0\<rparr>))
       = (Inr ''html'', [])"
proof -
  have a: "deref env_nested_html [0] = Some (element ''HTML'' '''' [element ''HEAD'' '''' [], element ''BODY'' '''' [element ''HTML'' '''' []]])"
    by (simp add: env_nested_html_def html_document_def)
  have b: "dom_nodeType (element ''HTML'' '''' [element ''HEAD'' '''' [], element ''BODY'' '''' [element ''HTML'' '''' []]]) = ELEMENT_NODE"
    by (simp add: element_def)
  have c: "toLowerCase (dom_tagName (element ''HTML'' '''' [element ''HEAD'' '''' [], element ''BODY'' '''' [element ''HTML'' '''' []]])) = ''html''"
    by (simp add: element_def toLowerCase_def toLowerCase_char_def)
  show ?thesis
    using a b c generate_html [OF a b c] by simp
qed















text \<open>
  Where the engine does not match the input with its own fragments the statement is
  silent. In \<open>env_svg_clash\<close> the lower-cased tag name of the \<open>linearGradient\<close>
  element matches one node, the unknown HTML element beside the \<open>svg\<close>, and the search
  returns it as the selector.
\<close>

lemma generate_svg_clash:
  "generate env_svg_clash [0, 0, 1, 0] None
     = (Inr ''lineargradient'', [Search All, QueryAll ''lineargradient''])
   \<and> querySelectorAll env_svg_clash ''lineargradient'' = [[1, 1, 0]]
   \<and> \<not> own_selectors_match env_svg_clash (spread (defaults env_svg_clash) None) [0, 0, 1, 0]"
  by code_simp


section \<open>The order of the searches\<close>

lemma searches_append: "searches (a @ b) = searches a @ searches b"
  by (induction a rule: searches.induct) auto

lemma unique_searches: "searches (snd (unique env p)) = []"
  by (auto simp: unique_def throw_def split: sum.splits nat.splits)

lemma test_candidates_searches: "searches (snd (test_candidates env ps)) = []"
proof (induction ps)
  case Nil
  show ?case by (simp add: ret_def)
next
  case (Cons p ps)
  obtain r t where u: "unique env p = (r, t)" by (cases "unique env p")
  have "searches t = []" using unique_searches [of env p] u by simp
  then show ?case
    using Cons.IH u by (auto simp: bind_def ret_def searches_append split: sum.splits)
qed

lemma findUniquePath_searches:
  "searches (snd (findUniquePath env config stack fallback))
     = (if threshold config < length (combinations stack [])
        then (case fallback of None \<Rightarrow> [] | Some f \<Rightarrow> searches (snd f))
        else [])"
  by (cases fallback)
    (auto simp: findUniquePath_def Let_def ret_def sort_paths_def test_candidates_searches)

text \<open>
  Of the stacks resolved in turn, the first \<open>m\<close> are resolved, all of them when no
  path is found; each of these that is over the threshold enters the fallback's searches
  once, and nothing else enters a search.
\<close>

lemma resolve_in_turn_searches:
  assumes "stacks \<noteq> []"
  shows "\<exists>m. 0 < m \<and> m \<le> length stacks
       \<and> searches (snd (resolve_in_turn env config fallback stacks))
           = concat (map (\<lambda>s. if threshold config < length (combinations s [])
                               then (case fallback of None \<Rightarrow> [] | Some f \<Rightarrow> searches (snd f))
                               else [])
                      (take m stacks))
       \<and> (fst (resolve_in_turn env config fallback stacks) = Inr None \<longrightarrow> m = length stacks)"
  using assms
proof (induction env config fallback stacks rule: resolve_in_turn.induct)
  case (1 env config fallback)
  then show ?case by simp
next
  case (2 env config fallback stack)
  show ?case
    by (rule exI [of _ 1]) (simp add: findUniquePath_searches)
next
  case (3 env config fallback stack v va)
  define F where "F = (\<lambda>s. if threshold config < length (combinations s [])
      then (case fallback of None \<Rightarrow> [] | Some f \<Rightarrow> searches (snd f)) else [])"
  obtain r t where f: "findUniquePath env config stack fallback = (r, t)"
    by (cases "findUniquePath env config stack fallback")
  have t: "searches t = F stack"
    using findUniquePath_searches [of env config stack fallback] f by (simp add: F_def)
  show ?case
  proof (cases "r = Inr None")
    case False
    then have stop: "resolve_in_turn env config fallback (stack # v # va) = (r, t)"
      using f by (cases r; cases "projr r") auto
    show ?thesis
      unfolding F_def [symmetric] stop
      by (rule exI [of _ 1]) (simp add: t False)
  next
    case True
    obtain m where m: "0 < m" "m \<le> length (v # va)"
      "searches (snd (resolve_in_turn env config fallback (v # va)))
         = concat (map F (take m (v # va)))"
      "fst (resolve_in_turn env config fallback (v # va)) = Inr None \<longrightarrow> m = length (v # va)"
      using "3.IH" [OF f [symmetric] True refl] unfolding F_def [symmetric] by auto
    have go: "resolve_in_turn env config fallback (stack # v # va)
        = apsnd ((@) t) (resolve_in_turn env config fallback (v # va))"
      using f True by simp
    have "searches (snd (resolve_in_turn env config fallback (stack # v # va)))
        = concat (map F (take (Suc m) (stack # v # va)))"
      unfolding go using m(3) t
      by (cases "resolve_in_turn env config fallback (v # va)") (simp add: searches_append)
    moreover have "fst (resolve_in_turn env config fallback (stack # v # va)) = Inr None
        \<longrightarrow> Suc m = length (stack # v # va)"
      unfolding go using m(4)
      by (cases "resolve_in_turn env config fallback (v # va)") simp
    ultimately show ?thesis
      unfolding F_def [symmetric] using m(1,2)
      by (intro exI [of _ "Suc m"]) simp
  qed
qed

text \<open>
  C2, as the code has it. The resolution of a stack hands over to the fallback, the next
  narrower search, exactly when the stack has more combinations than the threshold, and
  then is the fallback's own run; within the threshold the fallback is not called and no
  search is entered, whether or not a path is found. A search enters its own limit and
  then resolves, in turn, the stacks of its walk that have reached the seed length and
  after them the whole stack once more, until a resolution raises or returns a path. It
  enters the fallback's searches once for every stack it resolves that is over the
  threshold, so again for each later one; when it ends without a path it has resolved all
  of its stacks. When the search under \<open>All\<close>, with these hand-overs, ends without a
  path, \<open>generate\<close> reports that no selector was found, with no further event.
\<close>

theorem search_escalation:
  "(threshold config < length (combinations stack []) \<longrightarrow>
      findUniquePath env config stack (Some fb) = fb)
   \<and> (length (combinations stack []) \<le> threshold config \<longrightarrow>
      findUniquePath env config stack (Some fb) = findUniquePath env config stack None
      \<and> searches (snd (findUniquePath env config stack None)) = [])
   \<and> bottomUpSearch env config input limit fallback
       = apsnd ((#) (Search limit))
           (resolve_in_turn env config fallback (resolved_stacks env config limit input))
   \<and> searches (snd (bottomUpSearch env config input limit None)) = [limit]
   \<and> (\<exists>m. 0 < m \<and> m \<le> length (resolved_stacks env config limit input)
        \<and> searches (snd (bottomUpSearch env config input limit (Some fb)))
            = limit # concat (map (\<lambda>s. if threshold config < length (combinations s [])
                                         then searches (snd fb) else [])
                                (take m (resolved_stacks env config limit input)))
        \<and> (fst (bottomUpSearch env config input limit (Some fb)) = Inr None
             \<longrightarrow> m = length (resolved_stacks env config limit input)))
   \<and> (deref env input = Some el \<and> dom_nodeType el = ELEMENT_NODE
        \<and> toLowerCase (dom_tagName el) \<noteq> ''html''
        \<and> fst (bottomUpSearch env (spread (defaults env) options) input All
             (Some (bottomUpSearch env (spread (defaults env) options) input Two
                (Some (bottomUpSearch env (spread (defaults env) options) input One None)))))
           = Inr None
      \<longrightarrow> generate env input options
          = (Inl NotFound,
             snd (bottomUpSearch env (spread (defaults env) options) input All
               (Some (bottomUpSearch env (spread (defaults env) options) input Two
                  (Some (bottomUpSearch env (spread (defaults env) options) input One None)))))))"
proof -
  have a: "threshold config < length (combinations stack []) \<longrightarrow>
      findUniquePath env config stack (Some fb) = fb"
    by (simp add: findUniquePath_def Let_def sort_paths_def)
  have b: "length (combinations stack []) \<le> threshold config \<longrightarrow>
      findUniquePath env config stack (Some fb) = findUniquePath env config stack None
      \<and> searches (snd (findUniquePath env config stack None)) = []"
    by (simp add: findUniquePath_def Let_def sort_paths_def test_candidates_searches)
  have c: "bottomUpSearch env config input limit fallback
       = apsnd ((#) (Search limit))
           (resolve_in_turn env config fallback (resolved_stacks env config limit input))"
    by (rule bottomUpSearch_resolves)
  have ne: "resolved_stacks env config limit input \<noteq> []"
    by (simp add: resolved_stacks_def stacks_from_nonempty)
  have d: "searches (snd (bottomUpSearch env config input limit None)) = [limit]"
    using resolve_in_turn_searches [OF ne, of env config None]
    by (cases "resolve_in_turn env config None (resolved_stacks env config limit input)")
      (auto simp: bottomUpSearch_resolves)
  have e: "\<exists>m. 0 < m \<and> m \<le> length (resolved_stacks env config limit input)
        \<and> searches (snd (bottomUpSearch env config input limit (Some fb)))
            = limit # concat (map (\<lambda>s. if threshold config < length (combinations s [])
                                         then searches (snd fb) else [])
                                (take m (resolved_stacks env config limit input)))
        \<and> (fst (bottomUpSearch env config input limit (Some fb)) = Inr None
             \<longrightarrow> m = length (resolved_stacks env config limit input))"
    using resolve_in_turn_searches [OF ne, of env config "Some fb", unfolded option.case]
    by (cases "resolve_in_turn env config (Some fb) (resolved_stacks env config limit input)")
      (simp add: bottomUpSearch_resolves)
  have f: "deref env input = Some el \<and> dom_nodeType el = ELEMENT_NODE
        \<and> toLowerCase (dom_tagName el) \<noteq> ''html''
        \<and> fst (bottomUpSearch env (spread (defaults env) options) input All
             (Some (bottomUpSearch env (spread (defaults env) options) input Two
                (Some (bottomUpSearch env (spread (defaults env) options) input One None)))))
           = Inr None
      \<longrightarrow> generate env input options
          = (Inl NotFound,
             snd (bottomUpSearch env (spread (defaults env) options) input All
               (Some (bottomUpSearch env (spread (defaults env) options) input Two
                  (Some (bottomUpSearch env (spread (defaults env) options) input One None))))))"
  proof
    assume h: "deref env input = Some el \<and> dom_nodeType el = ELEMENT_NODE
        \<and> toLowerCase (dom_tagName el) \<noteq> ''html''
        \<and> fst (bottomUpSearch env (spread (defaults env) options) input All
             (Some (bottomUpSearch env (spread (defaults env) options) input Two
                (Some (bottomUpSearch env (spread (defaults env) options) input One None)))))
           = Inr None"
    define ladder where "ladder = bottomUpSearch env (spread (defaults env) options) input All
             (Some (bottomUpSearch env (spread (defaults env) options) input Two
                (Some (bottomUpSearch env (spread (defaults env) options) input One None))))"
    obtain t where l: "ladder = (Inr None, t)"
      using h unfolding ladder_def [symmetric] by (cases ladder) auto
    have "generate env input options = (Inl NotFound, t)"
      using h l [unfolded ladder_def]
      by (auto simp: generate_def Let_def bind_def throw_def)
    then show "generate env input options
          = (Inl NotFound,
             snd (bottomUpSearch env (spread (defaults env) options) input All
               (Some (bottomUpSearch env (spread (defaults env) options) input Two
                  (Some (bottomUpSearch env (spread (defaults env) options) input One None))))))"
      using l [unfolded ladder_def] by simp
  qed
  show ?thesis
    using a b c d e f by blast
qed

theorem search_escalation_witness:
  "fst (bottomUpSearch env_dup_id ((defaults env_dup_id)\<lparr>threshold := 0\<rparr>) [1, 1, 0] All
      (Some (bottomUpSearch env_dup_id ((defaults env_dup_id)\<lparr>threshold := 0\<rparr>) [1, 1, 0] Two
         (Some (bottomUpSearch env_dup_id ((defaults env_dup_id)\<lparr>threshold := 0\<rparr>) [1, 1, 0] One
            None))))) = Inr None
   \<and> length (resolved_stacks env_dup_id ((defaults env_dup_id)\<lparr>threshold := 0\<rparr>) All [1, 1, 0]) = 3
   \<and> searches (snd (bottomUpSearch env_dup_id ((defaults env_dup_id)\<lparr>threshold := 0\<rparr>) [1, 1, 0]
        Two (Some (bottomUpSearch env_dup_id ((defaults env_dup_id)\<lparr>threshold := 0\<rparr>) [1, 1, 0]
           One None)))) = [Two, One, One, One]
   \<and> searches (snd (bottomUpSearch env_dup_id ((defaults env_dup_id)\<lparr>threshold := 0\<rparr>) [1, 1, 0]
        All (Some (bottomUpSearch env_dup_id ((defaults env_dup_id)\<lparr>threshold := 0\<rparr>) [1, 1, 0]
           Two (Some (bottomUpSearch env_dup_id ((defaults env_dup_id)\<lparr>threshold := 0\<rparr>)
              [1, 1, 0] One None))))))
       = [All, Two, One, One, One, Two, One, One, One, Two, One, One, One]"
proof -
  define config where "config = (defaults env_dup_id)\<lparr>threshold := 0\<rparr>"
  define two where "two = bottomUpSearch env_dup_id config [1, 1, 0] Two
    (Some (bottomUpSearch env_dup_id config [1, 1, 0] One None))"
  have h: "fst (bottomUpSearch env_dup_id config [1, 1, 0] All (Some two)) = Inr None"
    unfolding two_def config_def by code_simp
  have n: "length (resolved_stacks env_dup_id config All [1, 1, 0]) = 3"
    unfolding config_def by code_simp
  have t: "searches (snd two) = [Two, One, One, One]"
    unfolding two_def config_def by code_simp
  have over: "All # concat (map (\<lambda>s. if threshold config < length (combinations s [])
                                       then searches (snd two) else [])
                              (resolved_stacks env_dup_id config All [1, 1, 0]))
      = [All, Two, One, One, One, Two, One, One, One, Two, One, One, One]"
    unfolding two_def config_def by code_simp
  obtain m where m: "searches (snd (bottomUpSearch env_dup_id config [1, 1, 0] All (Some two)))
        = All # concat (map (\<lambda>s. if threshold config < length (combinations s [])
                                     then searches (snd two) else [])
                            (take m (resolved_stacks env_dup_id config All [1, 1, 0])))"
      and "fst (bottomUpSearch env_dup_id config [1, 1, 0] All (Some two)) = Inr None
        \<longrightarrow> m = length (resolved_stacks env_dup_id config All [1, 1, 0])"
    using search_escalation [where env = env_dup_id and config = config and input = "[1, 1, 0]"
        and limit = All and fb = two]
    by blast
  then have "searches (snd (bottomUpSearch env_dup_id config [1, 1, 0] All (Some two)))
      = [All, Two, One, One, One, Two, One, One, One, Two, One, One, One]"
    using h t over by simp
  then show ?thesis
    using h n t unfolding two_def config_def by simp
qed

text \<open>
  The claim as it is worded fails twice. With the default threshold the search under
  \<open>All\<close> for the second of two \<open>div\<close>s with the same id ends without a path, and
  \<open>generate\<close> reports the failure although neither \<open>Two\<close> nor \<open>One\<close> was tried.
  With the threshold 0 every resolution hands over: the search under \<open>Two\<close> is entered
  again after each further stack of the search under \<open>All\<close>, and the search under
  \<open>One\<close> after each stack of each of these.
\<close>

theorem search_escalation_counterexample:
  "generate env_dup_id [1, 1, 0] None
     = (Inl NotFound,
        [Search All, QueryAll ''#x'', QueryAll ''body > #x'', QueryAll ''body:nth-child(2) > #x'',
         QueryAll ''body > #x'', QueryAll ''body:nth-child(2) > #x''])
   \<and> fst (generate env_dup_id [1, 1, 0] (Some (no_options\<lparr>p_threshold := Some 0\<rparr>)))
       = Inl NotFound
   \<and> searches (snd (generate env_dup_id [1, 1, 0] (Some (no_options\<lparr>p_threshold := Some 0\<rparr>))))
       = [All, Two, One, One, One, Two, One, One, One, Two, One, One, One]"
  by code_simp

end
